theory Spec2Isabelle
  imports Complex_Main "HOL-Library.AList" "HOL-Library.Sublist"
begin

section \<open>Request pacing: \<^verbatim>\<open>utils/rate_limiter.py\<close>\<close>

text \<open>
  The pacing state of class \<^verbatim>\<open>RateLimiter\<close>. Delays are Python floats; they are
  modelled as reals, so the arithmetic below is exact. The two streak counters start at
  0 and are only incremented or reset to 0, so they are natural numbers. The logger has
  no effect on the state and is left out, and so is \<^verbatim>\<open>wait\<close>, which sleeps, reads
  \<^verbatim>\<open>current_delay\<close> and writes only \<^verbatim>\<open>last_request_time\<close>.
\<close>

record rate_limiter =
  base_delay :: real
  randomize :: bool
  last_request_time :: "real option"
  consecutive_successes :: nat
  consecutive_failures :: nat
  current_delay :: real

text \<open>\<^verbatim>\<open>RateLimiter.__init__(base_delay, randomize)\<close>\<close>

definition RateLimiter :: "real \<Rightarrow> bool \<Rightarrow> rate_limiter" where
  "RateLimiter b r =
     \<lparr>base_delay = b, randomize = r, last_request_time = None,
      consecutive_successes = 0, consecutive_failures = 0, current_delay = b\<rparr>"

text \<open>
  \<^verbatim>\<open>on_success\<close>: the success streak grows, the failure streak is cleared, and from
  the fifth success in a row on the delay becomes \<^verbatim>\<open>max(base_delay * 0.8, 0.5)\<close>.
  The operations are written over the record scheme, so that the adaptive subclass
  inherits them.
\<close>

definition on_success :: "'a rate_limiter_scheme \<Rightarrow> 'a rate_limiter_scheme" where
  "on_success s =
     (let s1 = s\<lparr>consecutive_successes := consecutive_successes s + 1\<rparr>;
          s2 = s1\<lparr>consecutive_failures := 0\<rparr>
      in if consecutive_successes s2 \<ge> 5
         then s2\<lparr>current_delay := max (base_delay s2 * 0.8) 0.5\<rparr>
         else s2)"

text \<open>
  \<^verbatim>\<open>on_failure(error_type)\<close>, with the branches in the order of the source: the
  first test already holds whenever the failure streak is 3 or more, the \<^verbatim>\<open>elif\<close>
  comes after it.
\<close>

definition on_failure :: "'a rate_limiter_scheme \<Rightarrow> string \<Rightarrow> 'a rate_limiter_scheme" where
  "on_failure s error_type =
     (let s1 = s\<lparr>consecutive_failures := consecutive_failures s + 1\<rparr>;
          s2 = s1\<lparr>consecutive_successes := 0\<rparr>
      in if error_type = ''rate_limit'' \<or> consecutive_failures s2 \<ge> 3
         then s2\<lparr>current_delay := min (base_delay s2 * 2) 30\<rparr>
         else if consecutive_failures s2 \<ge> 5
         then s2\<lparr>current_delay := min (base_delay s2 * 3) 60\<rparr>
         else s2)"

text \<open>\<^verbatim>\<open>on_blocked\<close>: the delay is forced to 60 and the failure streak grows by 10.\<close>

definition on_blocked :: "'a rate_limiter_scheme \<Rightarrow> 'a rate_limiter_scheme" where
  "on_blocked s =
     (let s1 = s\<lparr>current_delay := 60\<rparr>
      in s1\<lparr>consecutive_failures := consecutive_failures s1 + 10\<rparr>)"

text \<open>\<^verbatim>\<open>reset\<close> and \<^verbatim>\<open>set_delay\<close>\<close>

definition reset :: "'a rate_limiter_scheme \<Rightarrow> 'a rate_limiter_scheme" where
  "reset s =
     s\<lparr>current_delay := base_delay s, consecutive_successes := 0,
       consecutive_failures := 0, last_request_time := None\<rparr>"

definition set_delay :: "'a rate_limiter_scheme \<Rightarrow> real \<Rightarrow> 'a rate_limiter_scheme" where
  "set_delay s delay =
     (let s1 = s\<lparr>current_delay := max 0.1 delay\<rparr>
      in s1\<lparr>base_delay := current_delay s1\<rparr>)"

text \<open>
  A feedback call reported to the limiter, and the state a sequence of such calls
  leaves, applied left to right.
\<close>

datatype feedback = OnSuccess | OnFailure string | OnBlocked

fun report :: "'a rate_limiter_scheme \<Rightarrow> feedback \<Rightarrow> 'a rate_limiter_scheme" where
  "report s OnSuccess = on_success s"
| "report s (OnFailure error_type) = on_failure s error_type"
| "report s OnBlocked = on_blocked s"

definition reports :: "'a rate_limiter_scheme \<Rightarrow> feedback list \<Rightarrow> 'a rate_limiter_scheme" where
  "reports s calls = foldl report s calls"

subsection \<open>The latency-aware subclass\<close>

text \<open>
  \<^verbatim>\<open>AdaptiveRateLimiter\<close> adds the history of response times and its bound to the
  fields of the base class.
\<close>

record adaptive_rate_limiter = rate_limiter +
  response_times :: "real list"
  max_response_time_history :: nat

definition AdaptiveRateLimiter :: "real \<Rightarrow> adaptive_rate_limiter" where
  "AdaptiveRateLimiter b =
     \<lparr>base_delay = b, randomize = True, last_request_time = None,
      consecutive_successes = 0, consecutive_failures = 0, current_delay = b,
      response_times = [], max_response_time_history = 10\<rparr>"

text \<open>
  \<^verbatim>\<open>on_request_complete(response_time, success)\<close>. The history is appended to and
  then cut from the front (\<^verbatim>\<open>pop(0)\<close> on a list that has just been appended to never
  fails). On success the average is taken over the whole retained history, on failure
  over its last three entries (\<^verbatim>\<open>response_times[-3:]\<close>).
\<close>

definition on_request_complete ::
  "adaptive_rate_limiter \<Rightarrow> real \<Rightarrow> bool \<Rightarrow> adaptive_rate_limiter" where
  "on_request_complete s response_time success =
     (let s1 = s\<lparr>response_times := response_times s @ [response_time]\<rparr>;
          s2 = (if length (response_times s1) > max_response_time_history s1
                then s1\<lparr>response_times := tl (response_times s1)\<rparr> else s1)
      in if success then
           (let s3 = on_success s2
            in if length (response_times s3) \<ge> 5 then
                 (let avg_response_time =
                        sum_list (response_times s3) / real (length (response_times s3))
                  in if avg_response_time < 1.0 \<and> consecutive_successes s3 \<ge> 5
                     then s3\<lparr>current_delay := max (current_delay s3 * 0.9) 0.5\<rparr>
                     else s3)
               else s3)
         else
           (let s3 = on_failure s2 ''general''
            in if length (response_times s3) \<ge> 3 then
                 (let avg_response_time =
                        sum_list (drop (length (response_times s3) - 3) (response_times s3)) / 3
                  in if avg_response_time > 5.0
                     then s3\<lparr>current_delay := min (current_delay s3 * 1.5) 30\<rparr>
                     else s3)
               else s3))"

text \<open>
  The mean of the last \<open>n\<close> entries of a history, as the specification words the
  latency test (with \<open>n = 5\<close>); it is compared with the average the code takes.
\<close>

definition mean_of_last :: "nat \<Rightarrow> real list \<Rightarrow> real" where
  "mean_of_last n xs = sum_list (drop (length xs - n) xs) / real n"

text \<open>
  A run of \<^verbatim>\<open>on_request_complete\<close> calls, each given as the pair of its two
  arguments, applied left to right.
\<close>

definition completes ::
  "adaptive_rate_limiter \<Rightarrow> (real \<times> bool) list \<Rightarrow> adaptive_rate_limiter" where
  "completes s calls =
     foldl (\<lambda>s (response_time, success). on_request_complete s response_time success) s calls"

text \<open>The two bounds of the delay invariant, on the current and on the base delay.\<close>

definition delay_in_bounds :: "'a rate_limiter_scheme \<Rightarrow> bool" where
  "delay_in_bounds s \<longleftrightarrow> 0.1 \<le> current_delay s \<and> current_delay s \<le> 60"

definition base_in_bounds :: "'a rate_limiter_scheme \<Rightarrow> bool" where
  "base_in_bounds s \<longleftrightarrow> 0.1 \<le> base_delay s \<and> base_delay s \<le> 60"

section \<open>Identity rotation: \<^verbatim>\<open>utils/user_agents.py\<close>\<close>

text \<open>
  The only exception the rotator can raise is Python's \<^verbatim>\<open>IndexError\<close>: from
  \<^verbatim>\<open>random.choice\<close> on an empty sequence and from indexing the pool out of range.
  None of the rotator's methods catches it, so it reaches the caller: an operation
  that can raise returns \<open>Inl IndexError\<close>.
\<close>

datatype py_error = IndexError

text \<open>
  Class \<^verbatim>\<open>UserAgentRotator\<close>: the pool and the rotation cursor. The cursor starts at
  0 and is only ever assigned a remainder modulo the pool size, so it is a natural
  number. The user agents are ASCII strings.
\<close>

record user_agent_rotator =
  user_agents :: "string list"
  current_index :: nat

text \<open>\<^verbatim>\<open>_get_user_agent_list\<close>, the pool every rotator starts with.\<close>

definition get_user_agent_list :: "string list" where
  "get_user_agent_list =
    [''Mozilla/5.0 (Windows NT 10.0; Win64; x64) AppleWebKit/537.36 (KHTML, like Gecko) Chrome/120.0.0.0 Safari/537.36'',
     ''Mozilla/5.0 (Windows NT 10.0; Win64; x64) AppleWebKit/537.36 (KHTML, like Gecko) Chrome/119.0.0.0 Safari/537.36'',
     ''Mozilla/5.0 (Windows NT 10.0; Win64; x64) AppleWebKit/537.36 (KHTML, like Gecko) Chrome/118.0.0.0 Safari/537.36'',
     ''Mozilla/5.0 (Macintosh; Intel Mac OS X 10_15_7) AppleWebKit/537.36 (KHTML, like Gecko) Chrome/120.0.0.0 Safari/537.36'',
     ''Mozilla/5.0 (Macintosh; Intel Mac OS X 10_15_7) AppleWebKit/537.36 (KHTML, like Gecko) Chrome/119.0.0.0 Safari/537.36'',
     ''Mozilla/5.0 (Windows NT 10.0; Win64; x64; rv:120.0) Gecko/20100101 Firefox/120.0'',
     ''Mozilla/5.0 (Windows NT 10.0; Win64; x64; rv:119.0) Gecko/20100101 Firefox/119.0'',
     ''Mozilla/5.0 (Macintosh; Intel Mac OS X 10.15; rv:120.0) Gecko/20100101 Firefox/120.0'',
     ''Mozilla/5.0 (Macintosh; Intel Mac OS X 10.15; rv:119.0) Gecko/20100101 Firefox/119.0'',
     ''Mozilla/5.0 (Macintosh; Intel Mac OS X 10_15_7) AppleWebKit/605.1.15 (KHTML, like Gecko) Version/17.1 Safari/605.1.15'',
     ''Mozilla/5.0 (Macintosh; Intel Mac OS X 10_15_7) AppleWebKit/605.1.15 (KHTML, like Gecko) Version/17.0 Safari/605.1.15'',
     ''Mozilla/5.0 (Windows NT 10.0; Win64; x64) AppleWebKit/537.36 (KHTML, like Gecko) Chrome/120.0.0.0 Safari/537.36 Edg/120.0.0.0'',
     ''Mozilla/5.0 (Windows NT 10.0; Win64; x64) AppleWebKit/537.36 (KHTML, like Gecko) Chrome/119.0.0.0 Safari/537.36 Edg/119.0.0.0'',
     ''Mozilla/5.0 (X11; Linux x86_64) AppleWebKit/537.36 (KHTML, like Gecko) Chrome/120.0.0.0 Safari/537.36'',
     ''Mozilla/5.0 (X11; Linux x86_64) AppleWebKit/537.36 (KHTML, like Gecko) Chrome/119.0.0.0 Safari/537.36'',
     ''Mozilla/5.0 (X11; Linux x86_64; rv:120.0) Gecko/20100101 Firefox/120.0'',
     ''Mozilla/5.0 (X11; Ubuntu; Linux x86_64; rv:120.0) Gecko/20100101 Firefox/120.0'']"

definition UserAgentRotator :: user_agent_rotator where
  "UserAgentRotator = \<lparr>user_agents = get_user_agent_list, current_index = 0\<rparr>"

text \<open>
  \<^verbatim>\<open>random.choice(seq)\<close>: it raises on an empty sequence and otherwise returns one of
  its elements. The random draw is an explicit argument, reduced to a position of the
  sequence.
\<close>

definition random_choice :: "nat \<Rightarrow> 'a list \<Rightarrow> py_error + 'a" where
  "random_choice draw seq =
     (if seq = [] then Inl IndexError else Inr (seq ! (draw mod length seq)))"

definition get_random_agent :: "nat \<Rightarrow> 'a user_agent_rotator_scheme \<Rightarrow> py_error + string" where
  "get_random_agent draw s = random_choice draw (user_agents s)"

text \<open>
  \<^verbatim>\<open>get_next_agent\<close>: the entry under the cursor, then the cursor moves on with
  wrap-around. Reading the pool outside its range raises (on the empty pool this
  happens before the remainder is taken).
\<close>

definition get_next_agent ::
  "'a user_agent_rotator_scheme \<Rightarrow> py_error + (string \<times> 'a user_agent_rotator_scheme)" where
  "get_next_agent s =
     (if current_index s < length (user_agents s)
      then Inr (user_agents s ! current_index s,
                s\<lparr>current_index := (current_index s + 1) mod length (user_agents s)\<rparr>)
      else Inl IndexError)"

text \<open>\<open>n\<close> successive \<^verbatim>\<open>get_next_agent\<close> calls and the agents they return, in order.\<close>

fun get_next_agents ::
  "nat \<Rightarrow> 'a user_agent_rotator_scheme \<Rightarrow>
     py_error + (string list \<times> 'a user_agent_rotator_scheme)" where
  "get_next_agents 0 s = Inr ([], s)"
| "get_next_agents (Suc n) s =
     (case get_next_agent s of
        Inl e \<Rightarrow> Inl e
      | Inr (agent, s1) \<Rightarrow>
          (case get_next_agents n s1 of
             Inl e \<Rightarrow> Inl e
           | Inr (agents, s2) \<Rightarrow> Inr (agent # agents, s2)))"

definition add_custom_agent ::
  "'a user_agent_rotator_scheme \<Rightarrow> string \<Rightarrow> 'a user_agent_rotator_scheme" where
  "add_custom_agent s user_agent =
     (if user_agent \<notin> set (user_agents s)
      then s\<lparr>user_agents := user_agents s @ [user_agent]\<rparr> else s)"

text \<open>
  \<^verbatim>\<open>get_desktop_agent\<close>: the filter of the list comprehension (Python's \<^verbatim>\<open>in\<close> on
  strings is the contiguous-substring test), then \<^verbatim>\<open>random.choice\<close> on what is left.
\<close>

definition is_desktop :: "string \<Rightarrow> bool" where
  "is_desktop ua \<longleftrightarrow>
     \<not> sublist ''Mobile'' ua \<and> \<not> sublist ''iPhone'' ua \<and> \<not> sublist ''Android'' ua"

definition get_desktop_agent :: "nat \<Rightarrow> 'a user_agent_rotator_scheme \<Rightarrow> py_error + string" where
  "get_desktop_agent draw s =
     (let desktop_agents = filter is_desktop (user_agents s)
      in random_choice draw desktop_agents)"

subsection \<open>The rotator that tracks success rates\<close>

text \<open>
  \<^verbatim>\<open>SmartUserAgentRotator\<close> keeps two dictionaries. A Python dictionary iterates in
  insertion order and \<^verbatim>\<open>get_best_agent\<close> depends on that order, so a dictionary is
  an association list: \<open>AList.update\<close> replaces the value of a present key in place
  and appends an absent key at the end, \<open>AList.map_entry\<close> changes the value of a
  present key in place. The inner dictionary
  \<^verbatim>\<open>{'success': _, 'total': _}\<close> is the record \<open>agent_stats\<close> (the field \<^verbatim>\<open>total\<close>
  is called \<open>total_count\<close>); both counts start at 0 and only grow.
\<close>

record agent_stats =
  success :: nat
  total_count :: nat

record smart_user_agent_rotator = user_agent_rotator +
  agent_success_rates :: "(string \<times> agent_stats) list"
  agent_usage_count :: "(string \<times> nat) list"

definition SmartUserAgentRotator :: smart_user_agent_rotator where
  "SmartUserAgentRotator =
     \<lparr>user_agents = get_user_agent_list, current_index = 0,
      agent_success_rates = [], agent_usage_count = []\<rparr>"

text \<open>\<^verbatim>\<open>record_result(user_agent, success)\<close>, statement by statement.\<close>

definition record_result ::
  "smart_user_agent_rotator \<Rightarrow> string \<Rightarrow> bool \<Rightarrow> smart_user_agent_rotator" where
  "record_result s user_agent ok =
     (let r0 = (if map_of (agent_success_rates s) user_agent = None
                then AList.update user_agent \<lparr>success = 0, total_count = 0\<rparr>
                       (agent_success_rates s)
                else agent_success_rates s);
          r1 = AList.map_entry user_agent (\<lambda>d. d\<lparr>total_count := total_count d + 1\<rparr>) r0;
          r2 = (if ok then AList.map_entry user_agent (\<lambda>d. d\<lparr>success := success d + 1\<rparr>) r1
                else r1);
          uses = (case map_of (agent_usage_count s) user_agent of None \<Rightarrow> 0 | Some n \<Rightarrow> n)
      in s\<lparr>agent_success_rates := r2,
           agent_usage_count := AList.update user_agent (uses + 1) (agent_usage_count s)\<rparr>)"

text \<open>A run of \<^verbatim>\<open>record_result\<close> calls, applied left to right.\<close>

definition record_results ::
  "smart_user_agent_rotator \<Rightarrow> (string \<times> bool) list \<Rightarrow> smart_user_agent_rotator" where
  "record_results s calls =
     foldl (\<lambda>s (user_agent, ok). record_result s user_agent ok) s calls"

text \<open>
  The loop of \<^verbatim>\<open>get_best_agent\<close> over the dictionary's items, carrying
  \<^verbatim>\<open>best_agent\<close> and \<^verbatim>\<open>best_rate\<close>. The rates are Python floats, modelled as exact
  quotients; the comparison is strict, and the rate to beat starts at 0.
\<close>

fun best_loop ::
  "(string \<times> agent_stats) list \<Rightarrow> string option \<times> real \<Rightarrow> string option \<times> real" where
  "best_loop [] (best_agent, best_rate) = (best_agent, best_rate)"
| "best_loop ((agent, stats) # rest) (best_agent, best_rate) =
     (if total_count stats \<ge> 5 then
        (let rate = real (success stats) / real (total_count stats)
         in if rate > best_rate then best_loop rest (Some agent, rate)
            else best_loop rest (best_agent, best_rate))
      else best_loop rest (best_agent, best_rate))"

text \<open>
  \<^verbatim>\<open>get_best_agent\<close>: an empty dictionary goes to the random choice at once; after the
  loop, \<^verbatim>\<open>if best_agent:\<close> is Python's truth test, which \<^verbatim>\<open>None\<close> and the empty
  string both fail.
\<close>

definition get_best_agent :: "nat \<Rightarrow> smart_user_agent_rotator \<Rightarrow> py_error + string" where
  "get_best_agent draw s =
     (if agent_success_rates s = [] then get_random_agent draw s
      else
        (case best_loop (agent_success_rates s) (None, 0) of
           (Some best_agent, best_rate) \<Rightarrow>
             if best_agent \<noteq> [] then Inr best_agent else get_random_agent draw s
         | (None, best_rate) \<Rightarrow> get_random_agent draw s))"

text \<open>
  \<^verbatim>\<open>get_stats\<close>: the snapshot is built under the key \<^verbatim>\<open>agent[:50] + "..."\<close>, and an
  assignment to a key already in the snapshot replaces its value. The method only
  reads the rotator; it is modelled as returning the snapshot together with the
  (unchanged) state.
\<close>

record stats_entry =
  success_rate :: real
  total_uses :: nat
  successes :: nat

definition stats_key :: "string \<Rightarrow> string" where
  "stats_key agent = take 50 agent @ ''...''"

fun stats_loop ::
  "(string \<times> agent_stats) list \<Rightarrow> (string \<times> stats_entry) list \<Rightarrow>
     (string \<times> stats_entry) list" where
  "stats_loop [] stats = stats"
| "stats_loop ((agent, data) # rest) stats =
     (if total_count data > 0 then
        (let success_rate = real (success data) / real (total_count data)
         in stats_loop rest
              (AList.update (stats_key agent)
                 \<lparr>success_rate = success_rate, total_uses = total_count data,
                  successes = success data\<rparr> stats))
      else stats_loop rest stats)"

definition get_stats ::
  "smart_user_agent_rotator \<Rightarrow> (string \<times> stats_entry) list \<times> smart_user_agent_rotator" where
  "get_stats s = (stats_loop (agent_success_rates s) [], s)"

subsection \<open>The specification's wording, for comparison with the code\<close>

text \<open>
  The invariant on the statistics: no identity has more successes than attempts.
\<close>

definition stats_consistent :: "smart_user_agent_rotator \<Rightarrow> bool" where
  "stats_consistent s \<longleftrightarrow>
     list_all (\<lambda>(agent, d). success d \<le> total_count d) (agent_success_rates s)"

text \<open>
  The best identity as the specification describes it: among the identities with at
  least 5 attempts, one whose ratio of successes to attempts no other such identity
  exceeds, and the first of these in the order of first use.
\<close>

definition ratio :: "agent_stats \<Rightarrow> real" where
  "ratio d = real (success d) / real (total_count d)"

definition top_rated :: "(string \<times> agent_stats) list \<Rightarrow> string \<times> agent_stats \<Rightarrow> bool" where
  "top_rated rates = (\<lambda>(agent, d). 5 \<le> total_count d \<and>
     list_all (\<lambda>(other, d'). 5 \<le> total_count d' \<longrightarrow> ratio d' \<le> ratio d) rates)"

definition best_identity ::
  "(string \<times> agent_stats) list \<Rightarrow> (string \<times> agent_stats) option" where
  "best_identity rates = find (top_rated rates) rates"

text \<open>An entry that is top rated and whose ratio is above the rate to beat.\<close>

definition beats :: "real \<Rightarrow> (string \<times> agent_stats) list \<Rightarrow> string \<times> agent_stats \<Rightarrow> bool" where
  "beats r rates y \<longleftrightarrow> top_rated rates y \<and> r < ratio (snd y)"

text \<open>The snapshot entry that \<^verbatim>\<open>get_stats\<close> builds from one inner dictionary.\<close>

definition entry_of :: "agent_stats \<Rightarrow> stats_entry" where
  "entry_of data = \<lparr>success_rate = real (success data) / real (total_count data),
      total_uses = total_count data, successes = success data\<rparr>"

section \<open>Properties of the rate limiter\<close>

lemma on_failure_base_delay: "base_delay (on_failure s error_type) = base_delay s"
  by (simp add: on_failure_def Let_def)

lemma on_failure_failures:
  "consecutive_failures (on_failure s error_type) = consecutive_failures s + 1"
  by (simp add: on_failure_def Let_def)

lemma on_failure_escalated:
  "error_type = ''rate_limit'' \<or> 2 \<le> consecutive_failures s \<Longrightarrow>
   current_delay (on_failure s error_type) = min (base_delay s * 2) 30"
  by (auto simp add: on_failure_def Let_def)

text \<open>
  C5. Whatever the state (so whatever the streak so far), one
  \<^verbatim>\<open>on_failure("rate_limit")\<close> sets the delay to \<^verbatim>\<open>min(base_delay * 2, 30)\<close>, and
  so do three \<^verbatim>\<open>on_failure("general")\<close> calls in a row.
\<close>

theorem C5_failure_doubles_delay:
  "current_delay (on_failure s ''rate_limit'') = min (base_delay s * 2) 30 \<and>
   current_delay (on_failure (on_failure (on_failure s ''general'') ''general'') ''general'')
     = min (base_delay s * 2) 30"
  by (simp add: on_failure_escalated on_failure_failures on_failure_base_delay)

text \<open>
  C2. The claim: after five or more general failures in a row the delay is
  \<^verbatim>\<open>min(base_delay * 3, 60)\<close>. In \<^verbatim>\<open>on_failure\<close> the test for a streak of 5 is the
  \<^verbatim>\<open>elif\<close> of the test for a streak of 3, so it is never reached: with the default
  base delay of 2 seconds, the fifth general failure in a row leaves the delay at 4
  seconds, where the claim has 6.
\<close>

theorem C2_fifth_general_failure:
  "current_delay (reports (RateLimiter 2 True)
      [OnFailure ''general'', OnFailure ''general'', OnFailure ''general'',
       OnFailure ''general'', OnFailure ''general'']) = 4 \<and>
   min (base_delay (RateLimiter 2 True) * 3) 60 = 6"
  by (simp add: reports_def RateLimiter_def on_failure_def Let_def)

text \<open>
  The same holds in every state: the \<^verbatim>\<open>elif\<close> branch can be deleted without changing
  \<^verbatim>\<open>on_failure\<close>, and every streak of three or more failures of one kind ends at
  \<^verbatim>\<open>min(base_delay * 2, 30)\<close>.
\<close>

lemma on_failure_elif_unreachable:
  "on_failure s error_type =
     (let s1 = s\<lparr>consecutive_failures := consecutive_failures s + 1\<rparr>;
          s2 = s1\<lparr>consecutive_successes := 0\<rparr>
      in if error_type = ''rate_limit'' \<or> consecutive_failures s2 \<ge> 3
         then s2\<lparr>current_delay := min (base_delay s2 * 2) 30\<rparr>
         else s2)"
  by (simp add: on_failure_def Let_def)

lemma reports_failures_base_delay:
  "base_delay (reports s (replicate n (OnFailure error_type))) = base_delay s"
  unfolding reports_def
  by (induction n arbitrary: s) (simp_all add: on_failure_base_delay)

lemma reports_failures_count:
  "consecutive_failures (reports s (replicate n (OnFailure error_type))) =
     consecutive_failures s + n"
  unfolding reports_def
  by (induction n arbitrary: s) (simp_all add: on_failure_failures)

lemma failure_streak_delay:
  assumes "3 \<le> n"
  shows "current_delay (reports s (replicate n (OnFailure error_type))) = min (base_delay s * 2) 30"
proof -
  from assms obtain m where n: "n = Suc m" and m: "2 \<le> m" by (cases n) auto
  let ?s' = "reports s (replicate m (OnFailure error_type))"
  have "reports s (replicate n (OnFailure error_type)) = on_failure ?s' error_type"
  proof -
    have "replicate n (OnFailure error_type) =
          replicate m (OnFailure error_type) @ [OnFailure error_type]"
      unfolding n by (simp only: replicate_append_same replicate_Suc)
    then show ?thesis by (simp add: reports_def)
  qed
  moreover have "2 \<le> consecutive_failures ?s'"
    using m by (simp add: reports_failures_count)
  ultimately show ?thesis
    by (simp add: on_failure_escalated reports_failures_base_delay)
qed

text \<open>
  C9. \<^verbatim>\<open>on_blocked\<close> leaves the success streak as it is; so when the streak stood at 4
  or more before the block signal, the next success reaches the threshold of 5 and
  relaxes the delay to \<^verbatim>\<open>max(base_delay * 0.8, 0.5)\<close>.
\<close>

theorem C9_blocked_keeps_success_streak:
  "consecutive_successes (on_blocked s) = consecutive_successes s \<and>
   (4 \<le> consecutive_successes s \<longrightarrow>
      current_delay (on_success (on_blocked s)) = max (base_delay s * 0.8) 0.5)"
  by (simp add: on_blocked_def on_success_def Let_def)

theorem C9_blocked_keeps_success_streak_witness:
  "4 \<le> consecutive_successes
          (reports (RateLimiter 2 True) [OnSuccess, OnSuccess, OnSuccess, OnSuccess]) \<and>
   current_delay (on_success (on_blocked
      (reports (RateLimiter 2 True) [OnSuccess, OnSuccess, OnSuccess, OnSuccess]))) = 1.6"
  using C9_blocked_keeps_success_streak
    [of "reports (RateLimiter 2 True) [OnSuccess, OnSuccess, OnSuccess, OnSuccess]"]
  by (simp add: reports_def RateLimiter_def on_success_def on_blocked_def Let_def)

subsection \<open>The bounds of the delay\<close>

text \<open>
  C1, as claimed, fails: the constructor takes any base delay and copies it into the
  current delay. A limiter built with 100 seconds is above 60 after a success, and
  one built with 0.01 seconds is below 0.1 after a rate-limit failure.
\<close>

theorem C1_unbounded_base_counterexample:
  "current_delay (reports (RateLimiter 100 True) [OnSuccess]) > 60 \<and>
   current_delay (reports (RateLimiter 0.01 True) [OnFailure ''rate_limit'']) < 0.1"
  by (simp add: reports_def RateLimiter_def on_failure_def on_success_def Let_def)

lemma report_base_delay: "base_delay (report s c) = base_delay s"
  by (cases c) (simp_all add: on_success_def on_failure_def on_blocked_def Let_def)

lemma report_bounds:
  assumes "base_in_bounds s" and "delay_in_bounds s"
  shows "delay_in_bounds (report s c)"
proof (cases c)
  case OnSuccess
  with assms show ?thesis
    by (auto simp add: on_success_def Let_def delay_in_bounds_def base_in_bounds_def)
next
  case (OnFailure error_type)
  with assms show ?thesis
    by (auto simp add: on_failure_def Let_def delay_in_bounds_def base_in_bounds_def)
next
  case OnBlocked
  then show ?thesis
    by (simp add: on_blocked_def Let_def delay_in_bounds_def)
qed

lemma reports_bounds:
  "base_in_bounds s \<Longrightarrow> delay_in_bounds s \<Longrightarrow> delay_in_bounds (reports s calls)"
  unfolding reports_def
proof (induction calls arbitrary: s)
  case Nil
  then show ?case by simp
next
  case (Cons c calls)
  have "base_in_bounds (report s c)"
    using Cons.prems(1) by (simp add: base_in_bounds_def report_base_delay)
  moreover have "delay_in_bounds (report s c)"
    using Cons.prems by (rule report_bounds)
  ultimately show ?case using Cons.IH by simp
qed

text \<open>
  C1, amended: for a limiter constructed with a base delay between 0.1 and 60 seconds
  (the default of 2 seconds is one), the current delay is between 0.1 and 60 seconds
  after every sequence of \<^verbatim>\<open>on_success\<close>, \<^verbatim>\<open>on_failure\<close> and \<^verbatim>\<open>on_blocked\<close> calls.
\<close>

theorem C1_delay_bounds:
  assumes "0.1 \<le> b" and "b \<le> 60"
  shows "0.1 \<le> current_delay (reports (RateLimiter b r) calls) \<and>
         current_delay (reports (RateLimiter b r) calls) \<le> 60"
proof -
  have "base_in_bounds (RateLimiter b r)" "delay_in_bounds (RateLimiter b r)"
    using assms by (simp_all add: base_in_bounds_def delay_in_bounds_def RateLimiter_def)
  then have "delay_in_bounds (reports (RateLimiter b r) calls)"
    by (rule reports_bounds)
  then show ?thesis by (simp add: delay_in_bounds_def)
qed

theorem C1_delay_bounds_witness:
  "(0.1::real) \<le> 2 \<and> (2::real) \<le> 60 \<and>
   0.1 \<le> current_delay
            (reports (RateLimiter 2 True) [OnSuccess, OnFailure ''rate_limit'', OnBlocked]) \<and>
   current_delay
     (reports (RateLimiter 2 True) [OnSuccess, OnFailure ''rate_limit'', OnBlocked]) \<le> 60"
  using C1_delay_bounds [of 2 True "[OnSuccess, OnFailure ''rate_limit'', OnBlocked]"]
  by simp

subsection \<open>The latency-aware reduction\<close>

lemma on_success_response_times: "response_times (on_success s) = response_times s"
  by (simp add: on_success_def Let_def)

lemma on_success_delay_history:
  "current_delay (on_success (s\<lparr>response_times := h\<rparr>)) = current_delay (on_success s)"
  by (simp add: on_success_def Let_def)

text \<open>
  C3, as claimed, fails: the code does not average the last 5 latencies but the whole
  retained history. After one slow failed request (10 seconds) and five fast
  successful ones (0.1 seconds each), the mean of the last 5 latencies is below 1 and
  the success streak is 5, yet the average the code takes is 1.75: the delay is the one
  \<^verbatim>\<open>on_success\<close> sets, with no further reduction.
\<close>

theorem C3_last_five_counterexample:
  "mean_of_last 5 (response_times (completes (AdaptiveRateLimiter 2)
      [(10, False), (0.1, True), (0.1, True), (0.1, True), (0.1, True), (0.1, True)])) < 1.0 \<and>
   5 \<le> consecutive_successes (completes (AdaptiveRateLimiter 2)
      [(10, False), (0.1, True), (0.1, True), (0.1, True), (0.1, True), (0.1, True)]) \<and>
   current_delay (completes (AdaptiveRateLimiter 2)
      [(10, False), (0.1, True), (0.1, True), (0.1, True), (0.1, True), (0.1, True)])
     = current_delay (on_success (completes (AdaptiveRateLimiter 2)
      [(10, False), (0.1, True), (0.1, True), (0.1, True), (0.1, True)])) \<and>
   current_delay (completes (AdaptiveRateLimiter 2)
      [(10, False), (0.1, True), (0.1, True), (0.1, True), (0.1, True), (0.1, True)])
     \<noteq> max (current_delay (on_success (completes (AdaptiveRateLimiter 2)
      [(10, False), (0.1, True), (0.1, True), (0.1, True), (0.1, True)])) * 0.9) 0.5"
  by (simp add: completes_def AdaptiveRateLimiter_def on_request_complete_def
      on_success_def on_failure_def mean_of_last_def Let_def)

text \<open>
  C3, amended: on a successful \<^verbatim>\<open>on_request_complete\<close> call, if the retained history
  (the current latency included, at most the last 10) holds at least 5 latencies, the
  mean of the whole retained history is below 1.0 seconds and
  \<^verbatim>\<open>consecutive_successes >= 5\<close>, then the delay set by \<^verbatim>\<open>on_success\<close> is reduced by a
  further 10 percent, floored at 0.5 seconds.
\<close>

theorem C3_latency_reduction:
  assumes "s' = on_request_complete s response_time True"
    and "5 \<le> length (response_times s')"
    and "sum_list (response_times s') / real (length (response_times s')) < 1.0"
    and "5 \<le> consecutive_successes s'"
  shows "current_delay s' = max (current_delay (on_success s) * 0.9) 0.5"
  using assms
  by (simp add: on_request_complete_def Let_def on_success_response_times
      on_success_delay_history split: if_splits)

theorem C3_latency_reduction_witness:
  "5 \<le> length (response_times (on_request_complete (completes (AdaptiveRateLimiter 2)
      [(0.1, True), (0.1, True), (0.1, True), (0.1, True)]) 0.1 True)) \<and>
   sum_list (response_times (on_request_complete (completes (AdaptiveRateLimiter 2)
      [(0.1, True), (0.1, True), (0.1, True), (0.1, True)]) 0.1 True)) / 5 < 1.0 \<and>
   5 \<le> consecutive_successes (on_request_complete (completes (AdaptiveRateLimiter 2)
      [(0.1, True), (0.1, True), (0.1, True), (0.1, True)]) 0.1 True) \<and>
   current_delay (on_request_complete (completes (AdaptiveRateLimiter 2)
      [(0.1, True), (0.1, True), (0.1, True), (0.1, True)]) 0.1 True) = 1.44"
  using C3_latency_reduction [of
      "on_request_complete (completes (AdaptiveRateLimiter 2)
         [(0.1, True), (0.1, True), (0.1, True), (0.1, True)]) 0.1 True"
      "completes (AdaptiveRateLimiter 2) [(0.1, True), (0.1, True), (0.1, True), (0.1, True)]"
      "0.1"]
  by (simp add: completes_def AdaptiveRateLimiter_def on_request_complete_def
      on_success_def Let_def)

section \<open>Properties of the rotator\<close>

subsection \<open>Sequential rotation\<close>

lemma get_next_agents_run:
  "current_index s < length (user_agents s) \<Longrightarrow>
   current_index s + n \<le> length (user_agents s) \<Longrightarrow>
   get_next_agents n s =
     Inr (take n (drop (current_index s) (user_agents s)),
          s\<lparr>current_index := (current_index s + n) mod length (user_agents s)\<rparr>)"
proof (induction n arbitrary: s)
  case 0
  then show ?case by simp
next
  case (Suc n)
  let ?s1 = "s\<lparr>current_index := (current_index s + 1) mod length (user_agents s)\<rparr>"
  from Suc.prems have lt: "current_index s < length (user_agents s)" by simp
  from Suc.prems have le: "current_index s + Suc n \<le> length (user_agents s)" by simp
  have step: "get_next_agent s = Inr (user_agents s ! current_index s, ?s1)"
    using lt by (simp add: get_next_agent_def)
  show ?case
  proof (cases "current_index s + 1 = length (user_agents s)")
    case True
    then have n0: "n = 0" using le by simp
    have "take (Suc 0) (drop (current_index s) (user_agents s)) = [user_agents s ! current_index s]"
      using lt by (simp add: take_Suc_conv_app_nth Cons_nth_drop_Suc [symmetric])
    then show ?thesis using step n0 True by simp
  next
    case False
    then have idx: "current_index ?s1 = current_index s + 1" using lt by simp
    have "current_index ?s1 < length (user_agents ?s1)" using False lt idx by simp
    moreover have "current_index ?s1 + n \<le> length (user_agents ?s1)" using le idx by simp
    ultimately have "get_next_agents n ?s1 =
      Inr (take n (drop (current_index ?s1) (user_agents ?s1)),
           ?s1\<lparr>current_index := (current_index ?s1 + n) mod length (user_agents ?s1)\<rparr>)"
      by (rule Suc.IH)
    with idx
    have "get_next_agents n ?s1 =
      Inr (take n (drop (current_index s + 1) (user_agents s)),
           s\<lparr>current_index := (current_index s + 1 + n) mod length (user_agents s)\<rparr>)"
      by simp
    moreover have "take (Suc n) (drop (current_index s) (user_agents s)) =
      user_agents s ! current_index s # take n (drop (current_index s + 1) (user_agents s))"
      using lt by (simp add: Cons_nth_drop_Suc [symmetric])
    ultimately show ?thesis using step by (simp add: add.commute add.left_commute)
  qed
qed

lemma get_next_agents_cycle:
  assumes "current_index s = 0"
  shows "get_next_agents (length (user_agents s)) s = Inr (user_agents s, s)"
proof (cases "user_agents s = []")
  case True
  then show ?thesis by simp
next
  case False
  have "get_next_agents (length (user_agents s)) s =
     Inr (take (length (user_agents s)) (drop (current_index s) (user_agents s)),
          s\<lparr>current_index := (current_index s + length (user_agents s)) mod length (user_agents s)\<rparr>)"
    by (rule get_next_agents_run) (simp_all add: assms False)
  moreover have "s\<lparr>current_index := 0\<rparr> = s" using assms by simp
  ultimately show ?thesis using assms by simp
qed

lemma get_next_agents_add:
  "get_next_agents (m + n) s =
     (case get_next_agents m s of
        Inl e \<Rightarrow> Inl e
      | Inr (xs, s1) \<Rightarrow>
          (case get_next_agents n s1 of
             Inl e \<Rightarrow> Inl e
           | Inr (ys, s2) \<Rightarrow> Inr (xs @ ys, s2)))"
  by (induction m arbitrary: s) (auto split: sum.splits prod.splits)

lemma get_next_agents_blocks:
  assumes "current_index s = 0"
  shows "get_next_agents (k * length (user_agents s)) s =
           Inr (concat (replicate k (user_agents s)), s)"
proof (induction k)
  case 0
  then show ?case by simp
next
  case (Suc k)
  have "get_next_agents (Suc k * length (user_agents s)) s =
        get_next_agents (length (user_agents s) + k * length (user_agents s)) s"
    by simp
  also have "\<dots> = Inr (user_agents s @ concat (replicate k (user_agents s)), s)"
    by (simp only: get_next_agents_add get_next_agents_cycle [OF assms] Suc.IH sum.case prod.case)
  finally show ?case by simp
qed

text \<open>
  C7. From cursor 0 on a pool of size \<open>N\<close>, \<open>N\<close> successive \<^verbatim>\<open>get_next_agent\<close> calls
  return the pool itself, entry by entry in pool order, and leave the rotator as it
  was, so every further block of \<open>N\<close> calls returns the same sequence: \<open>k\<close> blocks
  return \<open>k\<close> copies of the pool. Each call on a cursor inside the pool returns the
  entry under the cursor and moves the cursor to \<open>(cursor + 1) mod N\<close>.
\<close>

theorem C7_round_robin:
  "(current_index s = 0 \<longrightarrow>
      get_next_agents (length (user_agents s)) s = Inr (user_agents s, s) \<and>
      get_next_agents (k * length (user_agents s)) s =
        Inr (concat (replicate k (user_agents s)), s)) \<and>
   (current_index t < length (user_agents t) \<longrightarrow>
      get_next_agent t =
        Inr (user_agents t ! current_index t,
             t\<lparr>current_index := (current_index t + 1) mod length (user_agents t)\<rparr>))"
  by (simp add: get_next_agents_cycle get_next_agents_blocks get_next_agent_def)

theorem C7_round_robin_witness:
  "current_index UserAgentRotator = 0 \<and>
   current_index UserAgentRotator < length (user_agents UserAgentRotator) \<and>
   get_next_agents 17 UserAgentRotator = Inr (get_user_agent_list, UserAgentRotator) \<and>
   get_next_agents 34 UserAgentRotator =
     Inr (get_user_agent_list @ get_user_agent_list, UserAgentRotator) \<and>
   get_next_agent UserAgentRotator =
     Inr (get_user_agent_list ! 0, UserAgentRotator\<lparr>current_index := 1\<rparr>)"
proof -
  have len: "length get_user_agent_list = 17"
    by (simp add: get_user_agent_list_def)
  show ?thesis
    using C7_round_robin [of UserAgentRotator 2 UserAgentRotator]
    by (simp add: UserAgentRotator_def len numeral_2_eq_2)
qed

subsection \<open>The desktop filter\<close>

text \<open>
  C6. When no entry of the pool passes the desktop filter, \<^verbatim>\<open>get_desktop_agent\<close>
  fails: \<^verbatim>\<open>random.choice\<close> raises on the empty selection and the method has no
  handler, so the error is the result of the call whatever the random draw. The
  error the specification calls EmptyPoolError is Python's \<^verbatim>\<open>IndexError\<close> here.
\<close>

theorem C6_no_desktop_agent:
  assumes "filter is_desktop (user_agents s) = []"
  shows "get_desktop_agent draw s = Inl IndexError"
  using assms by (simp add: get_desktop_agent_def random_choice_def)

theorem C6_no_desktop_agent_witness:
  "filter is_desktop (user_agents (add_custom_agent \<lparr>user_agents = [], current_index = 0\<rparr>
       ''Mozilla/5.0 (Linux; Android 13; Pixel 7) AppleWebKit/537.36 (KHTML, like Gecko) Chrome/120.0.0.0 Mobile Safari/537.36'')) = [] \<and>
   get_desktop_agent 0 (add_custom_agent \<lparr>user_agents = [], current_index = 0\<rparr>
       ''Mozilla/5.0 (Linux; Android 13; Pixel 7) AppleWebKit/537.36 (KHTML, like Gecko) Chrome/120.0.0.0 Mobile Safari/537.36'')
     = Inl IndexError"
  using C6_no_desktop_agent [of "add_custom_agent \<lparr>user_agents = [], current_index = 0\<rparr>
       ''Mozilla/5.0 (Linux; Android 13; Pixel 7) AppleWebKit/537.36 (KHTML, like Gecko) Chrome/120.0.0.0 Mobile Safari/537.36''" 0]
  by (simp add: add_custom_agent_def is_desktop_def sublist_code)

subsection \<open>Successes never exceed attempts\<close>

lemma list_all_update:
  "list_all P al \<Longrightarrow> P (k, v) \<Longrightarrow> list_all P (AList.update k v al)"
  by (induction al) auto

lemma list_all_map_entry:
  "list_all P al \<Longrightarrow> (\<And>v. P (k, v) \<Longrightarrow> P (k, f v)) \<Longrightarrow> list_all P (AList.map_entry k f al)"
  by (induction al) auto

lemma map_entry_twice:
  "AList.map_entry k f (AList.map_entry k g al) = AList.map_entry k (\<lambda>v. f (g v)) al"
  by (induction al) auto

lemma record_result_consistent:
  assumes "stats_consistent s"
  shows "stats_consistent (record_result s user_agent ok)"
proof -
  let ?P = "\<lambda>(agent, d). success d \<le> total_count d"
  let ?r0 = "if map_of (agent_success_rates s) user_agent = None
             then AList.update user_agent \<lparr>success = 0, total_count = 0\<rparr> (agent_success_rates s)
             else agent_success_rates s"
  have r0: "list_all ?P ?r0"
    using assms by (simp add: stats_consistent_def list_all_update)
  have r1: "list_all ?P (AList.map_entry user_agent (\<lambda>d. d\<lparr>total_count := total_count d + 1\<rparr>) ?r0)"
    by (rule list_all_map_entry [OF r0]) simp
  have r2: "list_all ?P (AList.map_entry user_agent (\<lambda>d. d\<lparr>success := success d + 1\<rparr>)
        (AList.map_entry user_agent (\<lambda>d. d\<lparr>total_count := total_count d + 1\<rparr>) ?r0))"
    unfolding map_entry_twice by (rule list_all_map_entry [OF r0]) simp
  show ?thesis
    using r1 r2 by (simp add: stats_consistent_def record_result_def Let_def)
qed

lemma record_results_consistent:
  "stats_consistent s \<Longrightarrow> stats_consistent (record_results s calls)"
  unfolding record_results_def
  by (induction calls arbitrary: s) (auto simp add: record_result_consistent)

text \<open>
  C10. For every tracked identity the recorded successes do not exceed the recorded
  attempts: every \<^verbatim>\<open>record_result\<close> call preserves this, and it holds after every
  sequence of \<^verbatim>\<open>record_result\<close> calls on a new rotator, whose statistics are empty.
\<close>

theorem C10_successes_le_attempts:
  "(stats_consistent s \<longrightarrow> stats_consistent (record_result s user_agent ok)) \<and>
   stats_consistent (record_results SmartUserAgentRotator calls)"
proof -
  have "stats_consistent SmartUserAgentRotator"
    by (simp add: stats_consistent_def SmartUserAgentRotator_def)
  then show ?thesis
    by (simp add: record_result_consistent record_results_consistent)
qed

theorem C10_successes_le_attempts_witness:
  "stats_consistent (record_results SmartUserAgentRotator [(''A'', True), (''B'', False)]) \<and>
   stats_consistent
     (record_result (record_results SmartUserAgentRotator [(''A'', True), (''B'', False)])
        ''A'' False) \<and>
   agent_success_rates
     (record_result (record_results SmartUserAgentRotator [(''A'', True), (''B'', False)])
        ''A'' False)
     = [(''A'', \<lparr>success = 1, total_count = 2\<rparr>), (''B'', \<lparr>success = 0, total_count = 1\<rparr>)]"
  using C10_successes_le_attempts
    [of "record_results SmartUserAgentRotator [(''A'', True), (''B'', False)]" "''A''" False
        "[(''A'', True), (''B'', False)]"]
  by (simp add: record_results_def record_result_def SmartUserAgentRotator_def Let_def)

subsection \<open>The best agent\<close>

lemma beats_iff:
  "beats r rates (a, d) \<longleftrightarrow> 5 \<le> total_count d \<and> r < ratio d \<and>
     (\<forall>(other, d') \<in> set rates. 5 \<le> total_count d' \<longrightarrow> ratio d' \<le> ratio d)"
  by (auto simp add: beats_def top_rated_def list_all_iff)

lemma find_cong_set: "(\<And>x. x \<in> set xs \<Longrightarrow> P x = Q x) \<Longrightarrow> find P xs = find Q xs"
  by (induction xs) auto

lemma find_stronger:
  "find Q xs = Some x \<Longrightarrow> (\<And>y. P y \<Longrightarrow> Q y) \<Longrightarrow> P x \<Longrightarrow> find P xs = Some x"
  by (induction xs) (auto split: if_splits)

lemma ratio_pos: "5 \<le> total_count d \<Longrightarrow> 0 < ratio d \<longleftrightarrow> 0 < success d"
  by (simp add: ratio_def zero_less_divide_iff)

text \<open>Among finitely many entries with enough attempts, one has the highest ratio.\<close>

lemma exists_top:
  assumes "(z, dz) \<in> set xs" and "5 \<le> total_count dz"
  shows "\<exists>(m, dm) \<in> set xs. 5 \<le> total_count dm \<and>
           (\<forall>(other, d') \<in> set xs. 5 \<le> total_count d' \<longrightarrow> ratio d' \<le> ratio dm)"
proof -
  let ?E = "{y \<in> set xs. 5 \<le> total_count (snd y)}"
  let ?R = "(\<lambda>y. ratio (snd y)) ` ?E"
  have fin: "finite ?R" by simp
  have ne: "?R \<noteq> {}" using assms by auto
  from Max_in [OF fin ne] obtain y where y: "y \<in> ?E" "ratio (snd y) = Max ?R" by auto
  have "\<And>w. w \<in> ?E \<Longrightarrow> ratio (snd w) \<le> ratio (snd y)"
    unfolding y(2) by (rule Max_ge [OF fin]) simp
  then show ?thesis using y(1) by (intro bexI [of _ y]) auto
qed

text \<open>
  What the loop computes from any starting pair: the first entry that is top rated
  and above the rate to beat replaces the pair; without such an entry the pair stays.
\<close>

lemma best_loop_find:
  "best_loop xs (b, r) =
     (case find (beats r xs) xs of Some (a, d) \<Rightarrow> (Some a, ratio d) | None \<Rightarrow> (b, r))"
proof (induction xs arbitrary: b r)
  case Nil
  then show ?case by simp
next
  case (Cons x xs)
  obtain a d where x: "x = (a, d)" by (cases x)
  show ?case
  proof (cases "5 \<le> total_count d \<and> r < ratio d")
    case True
    then have step: "best_loop (x # xs) (b, r) = best_loop xs (Some a, ratio d)"
      by (simp add: x ratio_def Let_def)
    show ?thesis
    proof (cases "beats r (x # xs) x")
      case top: True
      then have "\<And>y. y \<in> set xs \<Longrightarrow> \<not> beats (ratio d) xs y"
        by (fastforce simp add: beats_iff x)
      then have "find (beats (ratio d) xs) xs = None"
        by (simp add: find_None_iff)
      then show ?thesis using step top Cons.IH [of "Some a" "ratio d"] by (simp add: x)
    next
      case False
      then obtain z dz where z: "(z, dz) \<in> set xs" "5 \<le> total_count dz" "ratio d < ratio dz"
        using True by (fastforce simp add: beats_iff x not_le)
      have "\<And>y. y \<in> set xs \<Longrightarrow> beats r (x # xs) y = beats (ratio d) xs y"
        using z True by (fastforce simp add: beats_iff x)
      then have "find (beats r (x # xs)) xs = find (beats (ratio d) xs) xs"
        by (rule find_cong_set)
      moreover have "find (beats (ratio d) xs) xs \<noteq> None"
      proof -
        from exists_top [OF z(1,2)] obtain m dm where m: "(m, dm) \<in> set xs" "5 \<le> total_count dm"
          "\<forall>(other, d') \<in> set xs. 5 \<le> total_count d' \<longrightarrow> ratio d' \<le> ratio dm"
          by auto
        from m(3) z have "ratio dz \<le> ratio dm" by auto
        with z(3) have "ratio d < ratio dm" by simp
        with m have "beats (ratio d) xs (m, dm)"
          by (simp add: beats_iff)
        with m(1) show ?thesis by (auto simp add: find_None_iff)
      qed
      ultimately show ?thesis using step False Cons.IH [of "Some a" "ratio d"]
        by (auto simp add: x split: option.splits)
    qed
  next
    case False
    then have step: "best_loop (x # xs) (b, r) = best_loop xs (b, r)"
      by (auto simp add: x ratio_def Let_def)
    have nx: "\<not> beats r (x # xs) x" using False by (auto simp add: beats_iff x)
    have "\<And>y. y \<in> set xs \<Longrightarrow> beats r (x # xs) y = beats r xs y"
      using False by (fastforce simp add: beats_iff x)
    then have "find (beats r (x # xs)) xs = find (beats r xs) xs"
      by (rule find_cong_set)
    then show ?thesis using step nx Cons.IH [of b r] by simp
  qed
qed

lemma five_failures:
  "agent_success_rates (record_results SmartUserAgentRotator
      [(get_user_agent_list ! 0, False), (get_user_agent_list ! 0, False),
       (get_user_agent_list ! 0, False), (get_user_agent_list ! 0, False),
       (get_user_agent_list ! 0, False)])
   = [(get_user_agent_list ! 0, \<lparr>success = 0, total_count = 5\<rparr>)]"
  by (simp add: record_results_def record_result_def SmartUserAgentRotator_def Let_def)

lemma five_failures_pool:
  "user_agents (record_results SmartUserAgentRotator
      [(get_user_agent_list ! 0, False), (get_user_agent_list ! 0, False),
       (get_user_agent_list ! 0, False), (get_user_agent_list ! 0, False),
       (get_user_agent_list ! 0, False)])
   = get_user_agent_list"
  by (simp add: record_results_def record_result_def SmartUserAgentRotator_def Let_def)

text \<open>
  C4, as claimed, fails: the rate to beat starts at 0 and the comparison is strict, so
  an identity whose ratio is 0 is never selected. After five failures of the first
  pool agent, that agent is the only identity with 5 attempts, and so the one the
  claim names; the code goes to the random choice, which with the draw 1 returns the
  second pool agent.
\<close>

theorem C4_zero_rate_counterexample:
  "best_identity (agent_success_rates (record_results SmartUserAgentRotator
      [(get_user_agent_list ! 0, False), (get_user_agent_list ! 0, False),
       (get_user_agent_list ! 0, False), (get_user_agent_list ! 0, False),
       (get_user_agent_list ! 0, False)]))
     = Some (get_user_agent_list ! 0, \<lparr>success = 0, total_count = 5\<rparr>) \<and>
   get_best_agent 1 (record_results SmartUserAgentRotator
      [(get_user_agent_list ! 0, False), (get_user_agent_list ! 0, False),
       (get_user_agent_list ! 0, False), (get_user_agent_list ! 0, False),
       (get_user_agent_list ! 0, False)])
     = Inr (get_user_agent_list ! 1) \<and>
   get_user_agent_list ! 1 \<noteq> get_user_agent_list ! 0"
  apply (simp only: five_failures)
  apply (simp add: best_identity_def top_rated_def ratio_def get_best_agent_def five_failures
      five_failures_pool get_random_agent_def random_choice_def)
  apply (simp add: get_user_agent_list_def)
  done

text \<open>
  C4, amended: when some identity with at least 5 attempts has at least one success,
  \<^verbatim>\<open>get_best_agent\<close> returns the identity with the highest ratio of successes to
  attempts among those with at least 5 attempts, the first in order of first use on a
  tie; it falls back to the random choice when no identity has 5 attempts or when
  every identity with 5 attempts has no success. (Identities are non-empty strings.)
  With identity A at 5 attempts and 5 successes and identity B at 5 attempts and 1
  success it returns A, which is the witness.
\<close>

theorem C4_best_agent:
  assumes "[] \<notin> fst ` set (agent_success_rates s)"
  shows "get_best_agent draw s =
     (case best_identity (agent_success_rates s) of
        Some (agent, d) \<Rightarrow> if 0 < success d then Inr agent else get_random_agent draw s
      | None \<Rightarrow> get_random_agent draw s)"
proof (cases "best_identity (agent_success_rates s)")
  case None
  then have "\<And>y. y \<in> set (agent_success_rates s) \<Longrightarrow> \<not> beats 0 (agent_success_rates s) y"
    by (auto simp add: best_identity_def find_None_iff beats_def)
  then have "find (beats 0 (agent_success_rates s)) (agent_success_rates s) = None"
    by (simp add: find_None_iff)
  then show ?thesis using None
    by (simp add: get_best_agent_def best_loop_find)
next
  case (Some y)
  obtain a d where y: "y = (a, d)" by (cases y)
  let ?rates = "agent_success_rates s"
  from Some have found: "find (top_rated ?rates) ?rates = Some (a, d)"
    by (simp add: best_identity_def y)
  then have mem: "(a, d) \<in> set ?rates" and top: "top_rated ?rates (a, d)"
    by (auto simp add: find_Some_iff in_set_conv_nth)
  from top have elig: "5 \<le> total_count d" by (simp add: top_rated_def)
  from mem assms have ne: "a \<noteq> []" by force
  from mem have nonempty: "?rates \<noteq> []" by auto
  show ?thesis
  proof (cases "0 < success d")
    case True
    then have b: "beats 0 ?rates (a, d)"
      using elig top by (simp add: beats_def ratio_pos)
    have "find (beats 0 ?rates) ?rates = Some (a, d)"
      using found
    proof (rule find_stronger)
      show "beats 0 ?rates (a, d)" by (rule b)
    qed (simp add: beats_def)
    then show ?thesis using Some True ne nonempty
      by (simp add: get_best_agent_def best_loop_find y)
  next
    case False
    then have "ratio d = 0" by (simp add: ratio_def)
    with top have "\<And>z. z \<in> set ?rates \<Longrightarrow> \<not> beats 0 ?rates z"
      by (fastforce simp add: beats_def top_rated_def list_all_iff)
    then have "find (beats 0 ?rates) ?rates = None"
      by (simp add: find_None_iff)
    then show ?thesis using Some False
      by (simp add: get_best_agent_def best_loop_find y)
  qed
qed

lemma record_results_A_B:
  "agent_success_rates (record_results SmartUserAgentRotator
      [(''A'', True), (''A'', True), (''A'', True), (''A'', True), (''A'', True),
       (''B'', True), (''B'', False), (''B'', False), (''B'', False), (''B'', False)])
   = [(''A'', \<lparr>success = 5, total_count = 5\<rparr>), (''B'', \<lparr>success = 1, total_count = 5\<rparr>)]"
  by (simp add: record_results_def record_result_def SmartUserAgentRotator_def Let_def)

theorem C4_best_agent_witness:
  "[] \<notin> fst ` set (agent_success_rates (record_results SmartUserAgentRotator
      [(''A'', True), (''A'', True), (''A'', True), (''A'', True), (''A'', True),
       (''B'', True), (''B'', False), (''B'', False), (''B'', False), (''B'', False)])) \<and>
   get_best_agent 3 (record_results SmartUserAgentRotator
      [(''A'', True), (''A'', True), (''A'', True), (''A'', True), (''A'', True),
       (''B'', True), (''B'', False), (''B'', False), (''B'', False), (''B'', False)])
     = Inr ''A''"
  using C4_best_agent [of "record_results SmartUserAgentRotator
      [(''A'', True), (''A'', True), (''A'', True), (''A'', True), (''A'', True),
       (''B'', True), (''B'', False), (''B'', False), (''B'', False), (''B'', False)]" 3]
  by (simp add: record_results_A_B best_identity_def top_rated_def ratio_def)

subsection \<open>The statistics snapshot\<close>

text \<open>
  The snapshot as a map: the entries of the identities with at least one attempt,
  under their truncated keys, a later identity overriding an earlier one with the
  same key.
\<close>

lemma stats_loop_map_of:
  "map_of (stats_loop rates stats) =
     map_of stats ++
     map_of (rev (map (\<lambda>(agent, data). (stats_key agent, entry_of data))
                   (filter (\<lambda>(agent, data). 0 < total_count data) rates)))"
proof (induction rates arbitrary: stats)
  case Nil
  then show ?case by simp
next
  case (Cons x rates)
  obtain agent data where x: "x = (agent, data)" by (cases x)
  show ?case
  proof (cases "0 < total_count data")
    case True
    have "map_of (stats_loop (x # rates) stats) =
          map_of (stats_loop rates (AList.update (stats_key agent) (entry_of data) stats))"
      using True by (simp add: x entry_of_def Let_def)
    also have "\<dots> = (map_of stats)(stats_key agent \<mapsto> entry_of data) ++
        map_of (rev (map (\<lambda>(agent, data). (stats_key agent, entry_of data))
                   (filter (\<lambda>(agent, data). 0 < total_count data) rates)))"
      by (simp only: Cons.IH update_conv')
    also have "\<dots> = map_of stats ++
        (map_of [(stats_key agent, entry_of data)] ++
         map_of (rev (map (\<lambda>(agent, data). (stats_key agent, entry_of data))
                   (filter (\<lambda>(agent, data). 0 < total_count data) rates))))"
      by (simp add: map_add_assoc [symmetric])
    finally show ?thesis using True
      by (simp add: x)
  next
    case False
    then show ?thesis by (simp add: x Cons.IH)
  qed
qed

lemma map_of_unique_value:
  assumes "(k, v) \<in> set al" and "\<And>v'. (k, v') \<in> set al \<Longrightarrow> v' = v"
  shows "map_of al k = Some v"
proof (cases "map_of al k")
  case None
  then show ?thesis using assms(1) by (force simp add: map_of_eq_None_iff)
next
  case (Some v')
  then have "(k, v') \<in> set al" by (rule map_of_SomeD)
  then show ?thesis using Some assms(2) by simp
qed

lemma two_chrome_results:
  "agent_success_rates (record_results SmartUserAgentRotator
      [(get_user_agent_list ! 0, True), (get_user_agent_list ! 1, False)])
   = [(get_user_agent_list ! 0, \<lparr>success = 1, total_count = 1\<rparr>),
      (get_user_agent_list ! 1, \<lparr>success = 0, total_count = 1\<rparr>)]"
  by (simp add: record_results_def record_result_def SmartUserAgentRotator_def Let_def
      get_user_agent_list_def)

text \<open>
  C8, as claimed, fails: the snapshot is keyed by the first 50 characters of the
  identity followed by three dots, not by the identity, and identities that agree on
  their first 50 characters share one key. The first two pool agents (Chrome 120 and
  Chrome 119 on Windows) do: after a success of the first and a failure of the
  second, the first has 1 success in 1 attempt, it is not a key of the snapshot, and
  the one entry of the snapshot, under the common truncated key, carries the success
  rate 0 of the second.
\<close>

theorem C8_truncated_key_counterexample:
  "map_of (agent_success_rates (record_results SmartUserAgentRotator
      [(get_user_agent_list ! 0, True), (get_user_agent_list ! 1, False)]))
      (get_user_agent_list ! 0) = Some \<lparr>success = 1, total_count = 1\<rparr> \<and>
   map_of (fst (get_stats (record_results SmartUserAgentRotator
      [(get_user_agent_list ! 0, True), (get_user_agent_list ! 1, False)])))
      (get_user_agent_list ! 0) = None \<and>
   fst (get_stats (record_results SmartUserAgentRotator
      [(get_user_agent_list ! 0, True), (get_user_agent_list ! 1, False)]))
     = [(''Mozilla/5.0 (Windows NT 10.0; Win64; x64) AppleWeb...'',
         \<lparr>success_rate = 0, total_uses = 1, successes = 0\<rparr>)]"
  apply (simp only: two_chrome_results get_stats_def fst_conv)
  apply (simp add: get_user_agent_list_def stats_key_def)
  done

text \<open>
  C8, amended: \<^verbatim>\<open>get_stats\<close> returns a snapshot keyed by the truncated identity (its
  first 50 characters followed by three dots). For every identity with at least one
  recorded attempt its truncated key is a key of the snapshot; when no identity with
  other statistics has the same truncated key, that key is mapped to the identity's
  own success rate (successes divided by attempts), total uses and successes. The
  call does not change the rotator.
\<close>

theorem C8_stats_snapshot:
  assumes "(agent, data) \<in> set (agent_success_rates s)" and "0 < total_count data"
  shows "stats_key agent \<in> fst ` set (fst (get_stats s)) \<and>
    ((\<forall>(other, data') \<in> set (agent_success_rates s).
        stats_key other = stats_key agent \<longrightarrow> data' = data) \<longrightarrow>
      map_of (fst (get_stats s)) (stats_key agent) =
        Some \<lparr>success_rate = real (success data) / real (total_count data),
              total_uses = total_count data, successes = success data\<rparr>) \<and>
    snd (get_stats s) = s"
proof -
  let ?L = "rev (map (\<lambda>(agent, data). (stats_key agent, entry_of data))
                   (filter (\<lambda>(agent, data). 0 < total_count data) (agent_success_rates s)))"
  have eq: "map_of (fst (get_stats s)) = map_of ?L"
    by (simp add: get_stats_def stats_loop_map_of)
  have mem: "(stats_key agent, entry_of data) \<in> set ?L"
    using assms by force
  then have "map_of ?L (stats_key agent) \<noteq> None"
    using weak_map_of_SomeI by fastforce
  then have present: "stats_key agent \<in> fst ` set (fst (get_stats s))"
    by (simp only: eq [symmetric] map_of_eq_None_iff) simp
  have own: "map_of (fst (get_stats s)) (stats_key agent) = Some (entry_of data)"
    if uniq: "\<forall>(other, data') \<in> set (agent_success_rates s).
        stats_key other = stats_key agent \<longrightarrow> data' = data"
    unfolding eq using mem
  proof (rule map_of_unique_value)
    fix v' assume "(stats_key agent, v') \<in> set ?L"
    then show "v' = entry_of data" using uniq by auto
  qed
  show ?thesis using present own by (simp add: entry_of_def get_stats_def)
qed

lemma chrome_firefox_results:
  "agent_success_rates (record_results SmartUserAgentRotator
      [(get_user_agent_list ! 0, True), (get_user_agent_list ! 5, False),
       (get_user_agent_list ! 0, False)])
   = [(get_user_agent_list ! 0, \<lparr>success = 1, total_count = 2\<rparr>),
      (get_user_agent_list ! 5, \<lparr>success = 0, total_count = 1\<rparr>)]"
  by (simp add: record_results_def record_result_def SmartUserAgentRotator_def Let_def
      get_user_agent_list_def)

theorem C8_stats_snapshot_witness:
  "(get_user_agent_list ! 0, \<lparr>success = 1, total_count = 2\<rparr>)
     \<in> set (agent_success_rates (record_results SmartUserAgentRotator
         [(get_user_agent_list ! 0, True), (get_user_agent_list ! 5, False),
          (get_user_agent_list ! 0, False)])) \<and>
   stats_key (get_user_agent_list ! 5) \<noteq> stats_key (get_user_agent_list ! 0) \<and>
   map_of (fst (get_stats (record_results SmartUserAgentRotator
         [(get_user_agent_list ! 0, True), (get_user_agent_list ! 5, False),
          (get_user_agent_list ! 0, False)])))
      (stats_key (get_user_agent_list ! 0))
     = Some \<lparr>success_rate = 1 / 2, total_uses = 2, successes = 1\<rparr>"
proof -
  have keys: "stats_key (get_user_agent_list ! 5) \<noteq> stats_key (get_user_agent_list ! 0)"
    by (simp add: get_user_agent_list_def stats_key_def)
  show ?thesis
    using C8_stats_snapshot [of "get_user_agent_list ! 0" "\<lparr>success = 1, total_count = 2\<rparr>"
        "record_results SmartUserAgentRotator
         [(get_user_agent_list ! 0, True), (get_user_agent_list ! 5, False),
          (get_user_agent_list ! 0, False)]"] keys
    by (simp add: chrome_firefox_results)
qed

end
